theory Spec2Isabelle
  imports Main "HOL-Library.Stream" "HOL-Library.Log_Nat"
begin

section \<open>Textbook RSA over unbounded integers (rsa.py)\<close>

text \<open>
  Python integers are unbounded, so every number is an \<^typ>\<open>int\<close>. Python's \<open>//\<close> and
  \<open>%\<close> round towards minus infinity, as \<open>div\<close> and \<open>mod\<close> on \<^typ>\<open>int\<close> do; unlike
  HOL, Python raises \<open>ZeroDivisionError\<close> on a zero divisor, which the model writes out.

  An exception is a value \<open>Inl e\<close>. A call that never reaches a \<open>return\<close> (the unbounded
  recursion of \<open>modexp\<close> on a negative exponent, a \<open>while True\<close> of \<open>randprime\<close> or
  \<open>keygen\<close> that never breaks) is the value \<open>None\<close> of a \<^theory_text>\<open>partial_function\<close>; CPython ends an
  unbounded recursion with a \<open>RecursionError\<close> once its stack limit is reached, and that
  limit (like memory) is not part of the model.
\<close>

datatype error =
    Exception string    \<comment> \<open>\<open>raise Exception("Zero divisor")\<close>\<close>
  | ZeroDivisionError   \<comment> \<open>\<open>%\<close> with a zero modulus\<close>
  | ValueError          \<comment> \<open>\<open>randint\<close> on an empty or non-integer range\<close>

definition py_mod :: "int \<Rightarrow> int \<Rightarrow> error + int" where
  "py_mod a b = (if b = 0 then Inl ZeroDivisionError else Inr (a mod b))"

subsection \<open>modexp\<close>

partial_function (option) modexp :: "int \<Rightarrow> int \<Rightarrow> int \<Rightarrow> (error + int) option" where
  "modexp x y N =
     (if y = 0 then Some (Inr 1)
      else Option.bind (modexp x (y div 2) N) (\<lambda>r.
        case r of
          Inl err \<Rightarrow> Some (Inl err)
        | Inr z \<Rightarrow>
            if y mod 2 = 0 then Some (py_mod (z ^ 2) N)
            else Some (py_mod (x * z ^ 2) N)))"

declare modexp.simps [code]

subsection \<open>extended\_euclid and modinv\<close>

function extended_euclid :: "int \<Rightarrow> int \<Rightarrow> int \<times> int \<times> int" where
  "extended_euclid a b =
     (if b = 0 then (1, 0, a)
      else (case extended_euclid b (a mod b) of
              (m, n, d) \<Rightarrow> (n, m - (a div b) * n, d)))"
  by pat_completeness auto
termination
  by (relation "measure (\<lambda>(a, b). nat \<bar>b\<bar>)")
     (auto intro: abs_mod_less)

declare extended_euclid.simps [simp del]

definition modinv :: "int \<Rightarrow> int \<Rightarrow> error + int" where
  "modinv a N =
     (case extended_euclid a N of
        (m, _, d) \<Rightarrow>
          if d \<noteq> 1 then Inl (Exception ''Zero divisor'')
          else py_mod m N)"

subsection \<open>The random source\<close>

text \<open>
  \<open>random.randint\<close> reads the interpreter's global generator. The model threads the
  generator through as a stream of raw natural numbers: \<open>randint lo hi\<close> consumes one
  and reduces it into the closed interval \<open>[lo, hi]\<close>, so every stream is a possible run
  and every value of the interval is returned for some stream. On an empty interval
  \<open>randint\<close> raises \<open>ValueError\<close>.
\<close>

type_synonym rng = "nat stream"

definition randint :: "int \<Rightarrow> int \<Rightarrow> rng \<Rightarrow> error + int \<times> rng" where
  "randint lo hi rs =
     (if hi < lo then Inl ValueError
      else Inr (lo + int (shd rs) mod (hi - lo + 1), stl rs))"

text \<open>The comprehension \<open>[randint(lo, hi) for i in range(k)]\<close>.\<close>

fun randints :: "int \<Rightarrow> int \<Rightarrow> nat \<Rightarrow> rng \<Rightarrow> error + int list \<times> rng" where
  "randints lo hi 0 rs = Inr ([], rs)"
| "randints lo hi (Suc k) rs =
     (case randint lo hi rs of
        Inl err \<Rightarrow> Inl err
      | Inr (a, rs') \<Rightarrow>
          (case randints lo hi k rs' of
             Inl err \<Rightarrow> Inl err
           | Inr (as, rs'') \<Rightarrow> Inr (a # as, rs'')))"

subsection \<open>fermat\_test\<close>

text \<open>
  The argument \<open>alphas\<close> is either an \<open>int\<close> (the number of bases to draw, 10 by
  default) or the bases themselves; the source tells them apart by \<open>type(alphas) == int\<close>.
\<close>

datatype alphas = Count int | Explicit "int list"

text \<open>The loop \<open>for a in alphas\<close>, returning at the first base with \<open>z != 1\<close>.\<close>

fun fermat_loop :: "int \<Rightarrow> int list \<Rightarrow> (error + bool) option" where
  "fermat_loop N [] = Some (Inr True)"
| "fermat_loop N (a # as) =
     (case modexp a (N - 1) N of
        None \<Rightarrow> None
      | Some (Inl err) \<Rightarrow> Some (Inl err)
      | Some (Inr z) \<Rightarrow> if z \<noteq> 1 then Some (Inr False) else fermat_loop N as)"

definition fermat_test :: "int \<Rightarrow> alphas \<Rightarrow> rng \<Rightarrow> (error + bool \<times> rng) option" where
  "fermat_test N alphas rs =
     (case (case alphas of
              Count k \<Rightarrow> randints 1 (N - 1) (nat k) rs
            | Explicit as \<Rightarrow> Inr (as, rs)) of
        Inl err \<Rightarrow> Some (Inl err)
      | Inr (as, rs') \<Rightarrow>
          (case fermat_loop N as of
             None \<Rightarrow> None
           | Some (Inl err) \<Rightarrow> Some (Inl err)
           | Some (Inr b) \<Rightarrow> Some (Inr (b, rs'))))"

text \<open>
  The same loop with a log of its calls: the second component lists, in order, the bases
  on which the loop called \<open>modexp\<close>. The source keeps no such list; the log is how the
  model says which witnesses are evaluated. Dropping the log gives \<open>fermat_loop\<close> back
  (lemma \<open>fermat_loop_calls_result\<close>).
\<close>

fun fermat_loop_calls :: "int \<Rightarrow> int list \<Rightarrow> (error + bool \<times> int list) option" where
  "fermat_loop_calls N [] = Some (Inr (True, []))"
| "fermat_loop_calls N (a # as) =
     (case modexp a (N - 1) N of
        None \<Rightarrow> None
      | Some (Inl err) \<Rightarrow> Some (Inl err)
      | Some (Inr z) \<Rightarrow>
          if z \<noteq> 1 then Some (Inr (False, [a]))
          else (case fermat_loop_calls N as of
                  None \<Rightarrow> None
                | Some (Inl err) \<Rightarrow> Some (Inl err)
                | Some (Inr (b, called)) \<Rightarrow> Some (Inr (b, a # called))))"

subsection \<open>randprime\<close>

definition trial_alphas :: "int list" where
  "trial_alphas = [2, 3, 5, 7, 11, 13, 17, 19]"

partial_function (option) randprime :: "int \<Rightarrow> int \<Rightarrow> rng \<Rightarrow> (error + int \<times> rng) option" where
  "randprime lower upper rs =
     (case randint lower upper rs of
        Inl err \<Rightarrow> Some (Inl err)
      | Inr (n, rs') \<Rightarrow>
          Option.bind (fermat_test n (Explicit trial_alphas) rs') (\<lambda>r.
            case r of
              Inl err \<Rightarrow> Some (Inl err)
            | Inr (b, rs'') \<Rightarrow> if b then Some (Inr (n, rs'')) else randprime lower upper rs''))"

declare randprime.simps [code]

subsection \<open>keygen\<close>

text \<open>
  The exponent search \<open>while True: try: d = modinv(e, phi); break; except: e += 1\<close>.
  The bare \<open>except\<close> catches whatever \<open>modinv\<close> raises.
\<close>

partial_function (option) find_exponent :: "int \<Rightarrow> int \<Rightarrow> (int \<times> int) option" where
  "find_exponent e phi =
     (case modinv e phi of
        Inr d \<Rightarrow> Some (e, d)
      | Inl err \<Rightarrow> find_exponent (e + 1) phi)"

declare find_exponent.simps [code]

text \<open>
  For \<open>nbits \<le> 0\<close> Python's \<open>2**(nbits-1)\<close> is a float that is not an integer, which
  \<open>randint\<close> rejects; for \<open>nbits \<ge> 1\<close> both bounds are the integers written here.
\<close>

definition keygen :: "int \<Rightarrow> rng \<Rightarrow> (error + ((int \<times> int) \<times> (int \<times> int)) \<times> rng) option" where
  "keygen nbits rs =
     (if nbits \<le> 0 then Some (Inl ValueError)
      else
        let lower = 2 ^ nat (nbits - 1); upper = 2 ^ nat nbits - 1 in
        (case randprime lower upper rs of
           None \<Rightarrow> None
         | Some (Inl err) \<Rightarrow> Some (Inl err)
         | Some (Inr (p, rs1)) \<Rightarrow>
             (case randprime lower upper rs1 of
                None \<Rightarrow> None
              | Some (Inl err) \<Rightarrow> Some (Inl err)
              | Some (Inr (q, rs2)) \<Rightarrow>
                  (let N = p * q in
                   case find_exponent 3 ((p - 1) * (q - 1)) of
                     None \<Rightarrow> None
                   | Some (e, d) \<Rightarrow> Some (Inr (((N, e), (N, d)), rs2))))))"

subsection \<open>encode and decode\<close>

definition encode :: "int \<times> int \<Rightarrow> int \<Rightarrow> (error + int) option" where
  "encode public_key msg = (case public_key of (N, e) \<Rightarrow> modexp msg e N)"

definition decode :: "int \<times> int \<Rightarrow> int \<Rightarrow> (error + int) option" where
  "decode private_key msg = (case private_key of (N, d) \<Rightarrow> modexp msg d N)"

subsection \<open>Notions of the specification\<close>

text \<open>
  Primality, as the specification's "secret primes p, q" means it: an integer from 2 on with
  no divisor strictly between 1 and itself. The source never tests it exactly.
\<close>

definition is_prime :: "int \<Rightarrow> bool" where
  "is_prime p \<longleftrightarrow> 2 \<le> p \<and> (\<forall>m\<in>{2..<p}. \<not> m dvd p)"


section \<open>modexp\<close>

lemma py_mod_simps [simp]:
  "py_mod a 0 = Inl ZeroDivisionError"
  "b \<noteq> 0 \<Longrightarrow> py_mod a b = Inr (a mod b)"
  by (simp_all add: py_mod_def)

lemma modexp_zero [simp]: "modexp x 0 N = Some (Inr 1)"
  by (simp add: modexp.simps)

lemma modexp_pos:
  assumes "0 < y" "N \<noteq> 0"
  shows "modexp x y N = Some (Inr (x ^ nat y mod N))"
  using assms(1)
proof (induction "nat y" arbitrary: y rule: less_induct)
  case less
  show ?case
  proof (cases "y = 1")
    case True
    then show ?thesis using \<open>N \<noteq> 0\<close> by (simp add: modexp.simps [of x 1])
  next
    case False
    with less.prems have h: "0 < y div 2" "nat (y div 2) < nat y" by auto
    have rec: "modexp x (y div 2) N = Some (Inr (x ^ nat (y div 2) mod N))"
      using less.hyps [OF h(2) h(1)] .
    have sq: "(x ^ nat (y div 2) mod N)\<^sup>2 mod N = x ^ (2 * nat (y div 2)) mod N"
      by (simp add: power_mod) (metis power_mult mult.commute)
    show ?thesis
    proof (cases "y mod 2 = 0")
      case True
      then have "y = 2 * (y div 2)" by presburger
      then have "nat y = nat (2 * (y div 2))" by simp
      then have "nat y = 2 * nat (y div 2)" by (simp add: nat_mult_distrib)
      then show ?thesis
        using True less.prems \<open>N \<noteq> 0\<close> rec sq by (subst modexp.simps) simp
    next
      case odd: False
      then have "y = 2 * (y div 2) + 1" by presburger
      then have "nat y = nat (2 * (y div 2) + 1)" by simp
      also have "\<dots> = Suc (2 * nat (y div 2))"
        using h(1) by (simp add: nat_add_distrib nat_mult_distrib)
      finally have e: "nat y = Suc (2 * nat (y div 2))" .
      have "x * (x ^ nat (y div 2) mod N)\<^sup>2 mod N = x * ((x ^ nat (y div 2) mod N)\<^sup>2 mod N) mod N"
        by (simp add: mod_mult_right_eq)
      also have "\<dots> = x * x ^ (2 * nat (y div 2)) mod N"
        by (simp only: sq mod_mult_right_eq)
      finally show ?thesis
        using odd less.prems \<open>N \<noteq> 0\<close> rec e by (subst modexp.simps) simp
    qed
  qed
qed

lemma modexp_correct:
  assumes "0 \<le> y" "2 \<le> N"
  shows "modexp x y N = Some (Inr (x ^ nat y mod N))"
proof (cases "y = 0")
  case True
  then show ?thesis using assms by simp
next
  case False
  then show ?thesis using assms modexp_pos [of y N x] by simp
qed

lemma modexp_returns_nonneg:
  assumes "modexp x y N = Some r"
  shows "0 \<le> y"
proof -
  have step: "0 \<le> y"
    if hyp: "\<And>x y N r. f x y N = Some r \<Longrightarrow> 0 \<le> y"
    and body: "(if y = 0 then Some (Inr 1)
      else Option.bind (f x (y div 2) N) (\<lambda>r.
        case r of
          Inl err \<Rightarrow> Some (Inl err)
        | Inr z \<Rightarrow>
            if y mod 2 = 0 then Some (py_mod (z ^ 2) N)
            else Some (py_mod (x * z ^ 2) N))) = Some r"
    for f :: "int \<Rightarrow> int \<Rightarrow> int \<Rightarrow> (error + int) option" and x y N r
  proof (cases "y = 0")
    case False
    with body obtain r' where "f x (y div 2) N = Some r'"
      by (auto simp: bind_eq_Some_conv)
    then have "0 \<le> y div 2" by (rule hyp)
    then show ?thesis by simp
  qed simp
  have "(case ((x, y), N) of (x, xa) \<Rightarrow> (case x of (x, xa) \<Rightarrow> (\<lambda>N r. 0 \<le> xa)) xa) r"
  proof (rule modexp.raw_induct [where P = "\<lambda>x y N r. 0 \<le> y"])
    show "(case ((x, y), N) of (x, xa) \<Rightarrow> (case x of (x, xa) \<Rightarrow> modexp x xa) xa) = Some r"
      using assms by simp
  qed (rule step)
  then show ?thesis by simp
qed

lemma modexp_negative: "y < 0 \<Longrightarrow> modexp x y N = None"
  using modexp_returns_nonneg [of x y N] by (cases "modexp x y N") auto

lemma modexp_zero_modulus: "0 < y \<Longrightarrow> modexp x y 0 = Some (Inl ZeroDivisionError)"
proof (induction "nat y" arbitrary: y rule: less_induct)
  case less
  show ?case
  proof (cases "y = 1")
    case True
    then show ?thesis by (simp add: modexp.simps [of x 1])
  next
    case False
    with less.prems have h: "0 < y div 2" "nat (y div 2) < nat y" by auto
    have "modexp x (y div 2) 0 = Some (Inl ZeroDivisionError)"
      using less.hyps [OF h(2) h(1)] .
    then show ?thesis using less.prems by (subst modexp.simps) simp
  qed
qed

text \<open>
  Claim C3. The docstring of \<open>modexp\<close> promises \<open>x^y mod N\<close>, and for a positive exponent
  (lemma \<open>modexp_pos\<close>) or a modulus from 2 on (lemma \<open>modexp_correct\<close>) that is what the
  code returns. With exponent 0 the code returns the literal 1 without reducing it, so for
  modulus 1 it returns 1 where \<open>x^0 mod 1\<close> is 0: \<open>modexp(5, 0, 1)\<close> is \<open>1\<close>, while
  \<open>modexp(5, 1, 1)\<close> is \<open>0\<close>.
\<close>

theorem modexp_exponent_zero_modulus_one:
  "modexp 5 0 1 = Some (Inr 1) \<and> (5::int) ^ nat 0 mod 1 = 0 \<and> modexp 5 1 1 = Some (Inr 0)"
  by (simp add: modexp.simps [of 5 1])

section \<open>extended\_euclid and modinv\<close>

lemma extended_euclid_base [simp]: "extended_euclid a 0 = (1, 0, a)"
  by (simp add: extended_euclid.simps)

lemma extended_euclid_step:
  "b \<noteq> 0 \<Longrightarrow> extended_euclid a b =
     (case extended_euclid b (a mod b) of (m, n, d) \<Rightarrow> (n, m - (a div b) * n, d))"
  by (subst extended_euclid.simps) simp

lemma extended_euclid_bezout:
  "extended_euclid a b = (m, n, d) \<Longrightarrow> m * a + n * b = d"
proof (induction a b arbitrary: m n d rule: extended_euclid.induct)
  case (1 a b)
  show ?case
  proof (cases "b = 0")
    case True
    with "1.prems" show ?thesis by simp
  next
    case False
    obtain m' n' d' where rec: "extended_euclid b (a mod b) = (m', n', d')"
      by (cases "extended_euclid b (a mod b)") auto
    from "1.IH" [OF False rec] have ih: "m' * b + n' * (a mod b) = d'" .
    from "1.prems" False rec have eqs: "m = n'" "n = m' - (a div b) * n'" "d = d'"
      by (auto simp: extended_euclid_step)
    have "a mod b = a - (a div b) * b"
      by (simp add: minus_div_mult_eq_mod)
    with ih have "m' * b + n' * (a - (a div b) * b) = d'" by simp
    then show ?thesis unfolding eqs by (simp add: algebra_simps)
  qed
qed

lemma extended_euclid_gcd:
  "0 \<le> b \<Longrightarrow> (b = 0 \<longrightarrow> 0 \<le> a) \<Longrightarrow> extended_euclid a b = (m, n, d) \<Longrightarrow> d = gcd a b"
proof (induction a b arbitrary: m n d rule: extended_euclid.induct)
  case (1 a b)
  show ?case
  proof (cases "b = 0")
    case True
    with "1.prems" show ?thesis by simp
  next
    case False
    obtain m' n' d' where rec: "extended_euclid b (a mod b) = (m', n', d')"
      by (cases "extended_euclid b (a mod b)") auto
    from False "1.prems"(1) have "0 < b" by simp
    then have "0 \<le> a mod b" "a mod b = 0 \<longrightarrow> 0 \<le> b" by simp_all
    from "1.IH" [OF False this rec] have "d' = gcd b (a mod b)" .
    moreover from "1.prems" False rec have "d = d'"
      by (simp add: extended_euclid_step)
    ultimately show ?thesis using gcd_red_int [of a b] by simp
  qed
qed

lemma modinv_error_iff:
  "modinv a N = Inl (Exception ''Zero divisor'') \<longleftrightarrow> snd (snd (extended_euclid a N)) \<noteq> 1"
  by (cases "extended_euclid a N") (auto simp: modinv_def py_mod_def)

lemma modinv_error_iff_gcd:
  assumes "1 \<le> N"
  shows "modinv a N = Inl (Exception ''Zero divisor'') \<longleftrightarrow> gcd a N \<noteq> 1"
proof -
  obtain m n d where ee: "extended_euclid a N = (m, n, d)"
    by (cases "extended_euclid a N") auto
  with assms have "d = gcd a N" by (intro extended_euclid_gcd [OF _ _ ee]) auto
  with ee show ?thesis by (simp add: modinv_error_iff)
qed

lemma modinv_inverse:
  assumes "1 \<le> N" "gcd a N = 1"
  shows "\<exists>x. modinv a N = Inr x \<and> 0 \<le> x \<and> x < N \<and> (a * x) mod N = 1 mod N"
proof -
  obtain m n d where ee: "extended_euclid a N = (m, n, d)"
    by (cases "extended_euclid a N") auto
  with assms have d: "d = 1" using extended_euclid_gcd [OF _ _ ee] by auto
  from extended_euclid_bezout [OF ee] d have bez: "m * a + n * N = 1" by simp
  have mi: "modinv a N = Inr (m mod N)"
    using ee d assms(1) by (simp add: modinv_def)
  have "(a * (m mod N)) mod N = (m * a) mod N"
    by (simp add: mod_mult_right_eq mult.commute)
  also have "\<dots> = (m * a + n * N) mod N" by simp
  also have "\<dots> = 1 mod N" by (simp only: bez)
  finally show ?thesis using mi assms(1) by simp
qed

lemma modinv_result:
  assumes "1 \<le> N" "modinv a N = Inr x"
  shows "gcd a N = 1 \<and> 0 \<le> x \<and> x < N \<and> (a * x) mod N = 1 mod N"
proof -
  from assms have g: "gcd a N = 1"
    using modinv_error_iff_gcd [OF assms(1), of a] by auto
  from modinv_inverse [OF assms(1) g] assms(2) show ?thesis using g by auto
qed

text \<open>
  Claim C4. For \<open>a \<ge> 0\<close> and \<open>b \<ge> 0\<close>, \<open>extended_euclid a b\<close> returns \<open>(m, n, d)\<close> with
  \<open>m * a + n * b = d\<close> and \<open>d = gcd a b\<close>; with \<open>b = 0\<close> it returns \<open>(1, 0, a)\<close>, so
  \<open>extended_euclid 0 0 = (1, 0, 0)\<close>, and \<open>gcd 0 0 = 0\<close>.
\<close>

theorem extended_euclid_spec:
  assumes "0 \<le> a" "0 \<le> b"
  shows "(case extended_euclid a b of (m, n, d) \<Rightarrow> m * a + n * b = d \<and> d = gcd a b)
    \<and> extended_euclid a 0 = (1, 0, a)
    \<and> extended_euclid 0 0 = (1, 0, 0) \<and> gcd (0::int) 0 = 0"
proof -
  obtain m n d where ee: "extended_euclid a b = (m, n, d)"
    by (cases "extended_euclid a b") auto
  have "m * a + n * b = d" by (rule extended_euclid_bezout [OF ee])
  moreover have "d = gcd a b" using assms by (intro extended_euclid_gcd [OF _ _ ee]) auto
  ultimately show ?thesis using ee by simp
qed

theorem extended_euclid_spec_witness:
  "(0::int) \<le> 15 \<and> (0::int) \<le> 7 \<and> extended_euclid 15 7 = (1, -2, 1)
    \<and> 1 * 15 + (-2) * 7 = (1::int) \<and> gcd (15::int) 7 = 1
    \<and> extended_euclid 15 0 = (1, 0, 15)"
proof -
  have h: "(0::int) \<le> 15" "(0::int) \<le> 7" by simp_all
  show ?thesis using extended_euclid_spec [OF h] by (simp add: extended_euclid.simps)
qed

text \<open>
  Claim C5, amended. For \<open>N \<ge> 1\<close> and \<open>gcd a N = 1\<close>, \<open>modinv a N\<close> returns an \<open>x\<close> with
  \<open>0 \<le> x < N\<close> and \<open>(a * x) mod N = 1 mod N\<close>; that is \<open>(a * x) mod N = 1\<close> as soon as
  \<open>N \<ge> 2\<close>. With \<open>N = 1\<close> no \<open>x\<close> has \<open>(a * x) mod N = 1\<close>, and \<open>modinv\<close> returns 0.
\<close>

theorem modinv_spec:
  assumes "1 \<le> N" "gcd a N = 1"
  shows "\<exists>x. modinv a N = Inr x \<and> 0 \<le> x \<and> x < N \<and> (a * x) mod N = 1 mod N
    \<and> (2 \<le> N \<longrightarrow> (a * x) mod N = 1)"
proof -
  from modinv_inverse [OF assms] obtain x where
    x: "modinv a N = Inr x" "0 \<le> x" "x < N" "(a * x) mod N = 1 mod N" by blast
  have "(a * x) mod N = 1" if "2 \<le> N" using x(4) that by simp
  with x show ?thesis by blast
qed

theorem modinv_spec_witness:
  "(1::int) \<le> 7 \<and> gcd (2::int) 7 = 1 \<and> modinv 2 7 = Inr 4 \<and> (2 * 4) mod 7 = (1::int)"
proof -
  have h: "(1::int) \<le> 7" "gcd (2::int) 7 = 1" by simp_all
  show ?thesis using modinv_spec [OF h] by (simp add: modinv_def extended_euclid.simps)
qed

theorem modinv_modulus_one_counterexample:
  "(1::int) \<le> 1 \<and> gcd (3::int) 1 = 1 \<and> modinv 3 1 = Inr 0 \<and> (3 * 0) mod (1::int) \<noteq> 1"
  by (simp add: modinv_def extended_euclid.simps)

lemma modinv_raises_if_not_coprime:
  assumes "gcd a N \<noteq> 1"
  shows "modinv a N = Inl (Exception ''Zero divisor'')"
proof -
  obtain m n d where ee: "extended_euclid a N = (m, n, d)"
    by (cases "extended_euclid a N") auto
  have "d \<noteq> 1"
  proof
    assume "d = 1"
    with extended_euclid_bezout [OF ee] have bez: "m * a + n * N = 1" by simp
    have "gcd a N dvd m * a" "gcd a N dvd n * N" by simp_all
    then have "gcd a N dvd m * a + n * N" by (rule dvd_add)
    with bez have "gcd a N dvd 1" by simp
    then have "gcd a N = 1" by simp
    with assms show False by contradiction
  qed
  with ee show ?thesis by (simp add: modinv_error_iff)
qed

text \<open>
  Claim C6. \<open>modinv a N\<close> raises \<open>Exception("Zero divisor")\<close> whenever \<open>gcd a N \<noteq> 1\<close>, for
  every \<open>a\<close> and \<open>N\<close> (so \<open>modinv 2 4\<close> raises). On the moduli of its contract, \<open>N \<ge> 1\<close>
  (the result lies in \<open>[0, N)\<close>), it raises exactly when \<open>gcd a N \<noteq> 1\<close> and returns a
  value otherwise. For every \<open>a\<close> and \<open>N\<close> the exception is raised exactly when the third
  component of \<open>extended_euclid a N\<close>, the computed gcd, differs from 1.
\<close>

theorem modinv_failure:
  "(gcd a N \<noteq> 1 \<longrightarrow> modinv a N = Inl (Exception ''Zero divisor''))
    \<and> (1 \<le> N \<longrightarrow> (modinv a N = Inl (Exception ''Zero divisor'') \<longleftrightarrow> gcd a N \<noteq> 1))
    \<and> (1 \<le> N \<and> gcd a N = 1 \<longrightarrow> (\<exists>x. modinv a N = Inr x))
    \<and> (modinv a N = Inl (Exception ''Zero divisor'')
        \<longleftrightarrow> snd (snd (extended_euclid a N)) \<noteq> 1)
    \<and> modinv 2 4 = Inl (Exception ''Zero divisor'')"
proof (intro conjI impI)
  show "modinv a N = Inl (Exception ''Zero divisor'')" if "gcd a N \<noteq> 1"
    using that by (rule modinv_raises_if_not_coprime)
  show "modinv a N = Inl (Exception ''Zero divisor'') \<longleftrightarrow> gcd a N \<noteq> 1" if "1 \<le> N"
    using that by (rule modinv_error_iff_gcd)
  show "\<exists>x. modinv a N = Inr x" if "1 \<le> N \<and> gcd a N = 1"
    using modinv_inverse [of N a] that by blast
  show "modinv a N = Inl (Exception ''Zero divisor'')
      \<longleftrightarrow> snd (snd (extended_euclid a N)) \<noteq> 1"
    by (rule modinv_error_iff)
  show "modinv 2 4 = Inl (Exception ''Zero divisor'')"
    by (simp add: modinv_def extended_euclid.simps)
qed

theorem modinv_failure_witness:
  "gcd (2::int) 4 \<noteq> 1 \<and> (1::int) \<le> 4 \<and> modinv 2 4 = Inl (Exception ''Zero divisor'')
    \<and> snd (snd (extended_euclid 2 4)) = 2
    \<and> (1::int) \<le> 7 \<and> gcd (2::int) 7 = 1 \<and> modinv 2 7 = Inr 4
    \<and> snd (snd (extended_euclid 2 7)) = 1"
  using modinv_failure [of 2 4] modinv_failure [of 2 7]
  by (simp add: modinv_def extended_euclid.simps)

text \<open>
  Outside the contract, for a modulus below 1, a coprime pair need not return: the computed
  \<open>d\<close> of \<open>extended_euclid 3 (-2)\<close> is \<open>-1\<close>, and with modulus 0 the final \<open>m % N\<close> raises
  \<open>ZeroDivisionError\<close>.
\<close>

lemma modinv_nonpositive_modulus:
  "gcd (3::int) (- 2) = 1 \<and> modinv 3 (- 2) = Inl (Exception ''Zero divisor'')
    \<and> gcd (1::int) 0 = 1 \<and> modinv 1 0 = Inl ZeroDivisionError"
  by (simp add: modinv_def extended_euclid.simps)

section \<open>Number theory: Fermat's little theorem\<close>

lemma is_prime_ge_2: "is_prime p \<Longrightarrow> 2 \<le> p"
  by (simp add: is_prime_def)

lemma is_prime_divisors:
  assumes "is_prime p" "0 < c" "c dvd p"
  shows "c = 1 \<or> c = p"
proof -
  from assms(1) have p: "2 \<le> p" and nd: "\<And>m. 2 \<le> m \<Longrightarrow> m < p \<Longrightarrow> \<not> m dvd p"
    by (auto simp: is_prime_def)
  from assms(3) p have "c \<le> p" by (intro zdvd_imp_le) auto
  with nd [of c] assms(2,3) show ?thesis by force
qed

lemma is_prime_coprime:
  assumes "is_prime p" "\<not> p dvd a"
  shows "coprime p a"
proof (rule coprimeI)
  fix c assume c: "c dvd p" "c dvd a"
  from assms(1) have "p \<noteq> 0" by (auto simp: is_prime_def)
  with c(1) have "c \<noteq> 0" by auto
  then have "0 < \<bar>c\<bar>" by simp
  moreover from c(1) have "\<bar>c\<bar> dvd p" by simp
  ultimately have "\<bar>c\<bar> = 1 \<or> \<bar>c\<bar> = p" by (rule is_prime_divisors [OF assms(1)])
  moreover have "\<bar>c\<bar> \<noteq> p"
  proof
    assume "\<bar>c\<bar> = p"
    with c(2) have "p dvd a" by (metis abs_dvd_iff)
    with assms(2) show False by contradiction
  qed
  ultimately show "is_unit c" by simp
qed

lemma is_prime_dvd_choose:
  assumes "is_prime p" "0 < k" "k < nat p"
  shows "p dvd int (nat p choose k)"
proof -
  from assms(1) have p: "2 \<le> p" by (rule is_prime_ge_2)
  have "k * (nat p choose k) = nat p * (nat p - 1 choose (k - 1))"
    using assms(2) by (rule times_binomial_minus1_eq)
  then have "int k * int (nat p choose k) = int (nat p) * int (nat p - 1 choose (k - 1))"
    by (metis of_nat_mult)
  with p have "p dvd int k * int (nat p choose k)" by simp
  moreover have "\<not> p dvd int k"
    using assms(2,3) by (intro zdvd_not_zless) auto
  then have "coprime p (int k)" by (rule is_prime_coprime [OF assms(1)])
  ultimately show ?thesis by (simp add: coprime_dvd_mult_right_iff)
qed

lemma fermat_nat:
  assumes "is_prime p"
  shows "p dvd int a ^ nat p - int a"
proof (induction a)
  case 0
  from assms have "nat p \<noteq> 0" by (auto simp: is_prime_def)
  then have "(0::int) ^ nat p = 0" by (simp add: power_0_left)
  then have "int 0 ^ nat p - int 0 = 0" by (simp only: of_nat_0 diff_zero)
  then show ?case by (simp only: dvd_0_right)
next
  case (Suc a)
  define P where "P = nat p"
  from assms have P: "2 \<le> P" by (auto simp: is_prime_def P_def)
  let ?f = "\<lambda>k. int (P choose k) * int a ^ k"
  have "(int a + 1) ^ P = (\<Sum>k\<le>P. ?f k)"
    by (simp add: binomial_ring)
  also have "{..P} = insert 0 (insert P {1..<P})" using P by auto
  also have "(\<Sum>k\<in>insert 0 (insert P {1..<P}). ?f k) = 1 + int a ^ P + (\<Sum>k\<in>{1..<P}. ?f k)"
    using P by simp
  finally have eq: "(int a + 1) ^ P - (int a + 1) = (int a ^ P - int a) + (\<Sum>k\<in>{1..<P}. ?f k)"
    by simp
  have d2: "p dvd (\<Sum>k\<in>{1..<P}. ?f k)"
  proof (rule dvd_sum)
    fix k assume "k \<in> {1..<P}"
    then have "p dvd int (nat p choose k)"
      by (intro is_prime_dvd_choose [OF assms]) (auto simp: P_def)
    then show "p dvd ?f k" by (simp add: P_def)
  qed
  have d1: "p dvd int a ^ P - int a" using Suc by (simp add: P_def)
  have "p dvd (int a ^ P - int a) + (\<Sum>k\<in>{1..<P}. ?f k)"
    using d1 d2 by (rule dvd_add)
  then have "p dvd (int a + 1) ^ P - (int a + 1)" by (simp only: eq)
  then show ?case by (simp add: P_def add.commute)
qed

lemma fermat_mod:
  assumes "is_prime p"
  shows "a ^ nat p mod p = a mod p"
proof -
  from assms have p: "0 < p" by (auto simp: is_prime_def)
  define r where "r = nat (a mod p)"
  from p have r: "int r = a mod p" by (simp add: r_def)
  have "a ^ nat p mod p = (a mod p) ^ nat p mod p" by (simp add: power_mod)
  also have "\<dots> = int r ^ nat p mod p" by (simp add: r)
  also have "\<dots> = int r mod p"
    using fermat_nat [OF assms, of r] by (simp add: mod_eq_dvd_iff)
  also have "\<dots> = a mod p" by (simp add: r)
  finally show ?thesis .
qed

lemma fermat_little:
  assumes "is_prime p" "\<not> p dvd a"
  shows "a ^ (nat p - 1) mod p = 1"
proof -
  from assms(1) have p: "2 \<le> p" by (rule is_prime_ge_2)
  then have "nat p = Suc (nat p - 1)" by simp
  then have "a ^ nat p = a * a ^ (nat p - 1)" by (metis power_Suc)
  moreover have "p dvd a ^ nat p - a"
    using fermat_mod [OF assms(1), of a] by (simp add: mod_eq_dvd_iff)
  ultimately have "p dvd a * (a ^ (nat p - 1) - 1)" by (simp add: algebra_simps)
  moreover have "coprime p a" by (rule is_prime_coprime [OF assms])
  ultimately have "p dvd a ^ (nat p - 1) - 1" by (simp add: coprime_dvd_mult_right_iff)
  then have "a ^ (nat p - 1) mod p = 1 mod p" by (simp add: mod_eq_dvd_iff)
  with p show ?thesis by simp
qed

lemma Ball_int_upto_unfold:
  "(\<forall>a\<in>{l..<u::int}. P a) = (if u \<le> l then True else P l \<and> (\<forall>a\<in>{l + 1..<u}. P a))"
proof (cases "u \<le> l")
  case True
  then show ?thesis by simp
next
  case False
  then have "{l..<u} = insert l {l + 1..<u}" by auto
  with False show ?thesis by simp
qed

lemma is_prime_31: "is_prime 31"
  unfolding is_prime_def by (simp add: Ball_int_upto_unfold)

lemma is_prime_61: "is_prime 61"
  unfolding is_prime_def by (simp add: Ball_int_upto_unfold)

lemma fermat_61:
  assumes "1 \<le> a" "a \<le> 60"
  shows "a ^ 60 mod 61 = (1::int)"
proof -
  have "\<not> 61 dvd a" using assms by (intro zdvd_not_zless) auto
  from fermat_little [OF is_prime_61 this] show ?thesis by simp
qed

lemma fermat_62:
  assumes "2 \<le> a" "a \<le> 61"
  shows "a ^ 61 mod 62 \<noteq> (1::int)"
proof
  assume "a ^ 61 mod 62 = 1"
  then have "a ^ 61 mod 62 = 1 mod 62" by simp
  then have d62: "62 dvd a ^ 61 - 1" by (simp only: mod_eq_dvd_iff)
  have "(31::int) dvd 62" "(2::int) dvd 62" by simp_all
  with d62 have d31: "31 dvd a ^ 61 - 1" and d2: "2 dvd a ^ 61 - 1"
    by (blast intro: dvd_trans)+
  have nd: "\<not> 31 dvd a"
  proof
    assume "31 dvd a"
    moreover have "a dvd a ^ 61" by simp
    ultimately have "31 dvd a ^ 61" by (rule dvd_trans)
    from this d31 have "31 dvd a ^ 61 - (a ^ 61 - 1)" by (rule dvd_diff)
    then show False by simp
  qed
  from fermat_little [OF is_prime_31 nd] have f: "a ^ 30 mod 31 = 1" by simp
  have "a ^ Suc 60 = a * a ^ 60" by (rule power_Suc)
  moreover have "Suc 60 = 61" by simp
  moreover have "(a ^ 30) ^ 2 = a ^ 60" by (simp add: power_mult [symmetric])
  ultimately have "a ^ 61 = a * (a ^ 30) ^ 2" by (simp only:)
  then have "a ^ 61 mod 31 = a * ((a ^ 30) ^ 2 mod 31) mod 31"
    by (simp add: mod_mult_right_eq)
  also have "(a ^ 30) ^ 2 mod 31 = (a ^ 30 mod 31) ^ 2 mod 31" by (simp add: power_mod)
  also have "\<dots> = 1" by (simp add: f)
  finally have "a ^ 61 mod 31 = a mod 31" by simp
  moreover from d31 have "a ^ 61 mod 31 = 1 mod 31" by (simp only: mod_eq_dvd_iff)
  ultimately have "a mod 31 = 1" by simp
  with assms have "a = 32" by presburger
  with d2 show False by simp
qed

lemma is_prime_23: "is_prime 23"
  unfolding is_prime_def by (simp add: Ball_int_upto_unfold)

lemma is_prime_53: "is_prime 53"
  unfolding is_prime_def by (simp add: Ball_int_upto_unfold)

lemma power_mod_prime:
  assumes "is_prime p"
  shows "a ^ (1 + k * (nat p - 1)) mod p = a mod p"
proof (cases "p dvd a")
  case True
  then have "p dvd a * a ^ (k * (nat p - 1))" by simp
  with True show ?thesis by (simp add: mod_eq_0_iff_dvd)
next
  case False
  from fermat_little [OF assms False] have f: "a ^ (nat p - 1) mod p = 1" .
  from assms have p: "2 \<le> p" by (rule is_prime_ge_2)
  have "a ^ (k * (nat p - 1)) = (a ^ (nat p - 1)) ^ k"
    by (metis power_mult mult.commute)
  moreover have "a ^ (1 + k * (nat p - 1)) = a * a ^ (k * (nat p - 1))"
    by simp
  ultimately have "a ^ (1 + k * (nat p - 1)) mod p = a * (a ^ (nat p - 1)) ^ k mod p"
    by (simp only:)
  also have "\<dots> = a * ((a ^ (nat p - 1)) ^ k mod p) mod p"
    by (simp only: mod_mult_right_eq)
  also have "(a ^ (nat p - 1)) ^ k mod p = (a ^ (nat p - 1) mod p) ^ k mod p"
    by (simp only: power_mod)
  also have "\<dots> = 1 ^ k mod p" by (simp only: f)
  also have "\<dots> = 1" using p by simp
  finally show ?thesis by simp
qed

lemma is_prime_distinct_coprime:
  assumes "is_prime p" "is_prime q" "p \<noteq> q"
  shows "coprime p q"
proof -
  from assms(1) have p: "2 \<le> p" by (rule is_prime_ge_2)
  have "\<not> p dvd q"
  proof
    assume "p dvd q"
    with is_prime_divisors [OF assms(2), of p] p have "p = 1 \<or> p = q" by simp
    with p assms(3) show False by simp
  qed
  then show ?thesis by (rule is_prime_coprime [OF assms(1)])
qed

lemma rsa_power:
  assumes pq: "is_prime p" "is_prime q" "p \<noteq> q"
    and ed: "0 \<le> e" "0 \<le> d" "(e * d) mod ((p - 1) * (q - 1)) = 1"
    and m: "0 \<le> m" "m < p * q"
  shows "m ^ (nat e * nat d) mod (p * q) = m"
proof -
  from pq have p: "2 \<le> p" and q: "2 \<le> q" by (auto dest: is_prime_ge_2)
  define phi where "phi = (p - 1) * (q - 1)"
  define k where "k = (e * d) div phi"
  from p q have phi: "0 < phi" by (simp add: phi_def)
  from ed(1,2) have "0 \<le> e * d" by simp
  with phi have k: "0 \<le> k" by (simp add: k_def pos_imp_zdiv_nonneg_iff)
  have "e * d = phi * k + (e * d) mod phi" by (simp add: k_def)
  with ed(3) have eq: "e * d = 1 + k * ((p - 1) * (q - 1))" by (simp add: phi_def mult.commute)
  have "nat e * nat d = nat (e * d)" using ed(1) by (simp add: nat_mult_distrib)
  also have "\<dots> = nat (1 + k * ((p - 1) * (q - 1)))" by (simp only: eq)
  also have "\<dots> = 1 + nat k * ((nat p - 1) * (nat q - 1))"
    using k p q by (simp add: nat_add_distrib nat_mult_distrib nat_diff_distrib)
  finally have ex: "nat e * nat d = 1 + nat k * ((nat p - 1) * (nat q - 1))" .
  have "nat k * ((nat p - 1) * (nat q - 1)) = (nat k * (nat q - 1)) * (nat p - 1)"
    by (simp add: ac_simps)
  with ex have "nat e * nat d = 1 + (nat k * (nat q - 1)) * (nat p - 1)"
    by (simp only:)
  then have "m ^ (nat e * nat d) mod p = m mod p"
    by (simp only: power_mod_prime [OF pq(1)])
  then have dp: "p dvd m ^ (nat e * nat d) - m" by (simp only: mod_eq_dvd_iff)
  have "nat k * ((nat p - 1) * (nat q - 1)) = (nat k * (nat p - 1)) * (nat q - 1)"
    by (simp add: ac_simps)
  with ex have "nat e * nat d = 1 + (nat k * (nat p - 1)) * (nat q - 1)"
    by (simp only:)
  then have "m ^ (nat e * nat d) mod q = m mod q"
    by (simp only: power_mod_prime [OF pq(2)])
  then have dq: "q dvd m ^ (nat e * nat d) - m" by (simp only: mod_eq_dvd_iff)
  from dp dq is_prime_distinct_coprime [OF pq] have "p * q dvd m ^ (nat e * nat d) - m"
    by (rule divides_mult)
  then have "m ^ (nat e * nat d) mod (p * q) = m mod (p * q)" by (simp only: mod_eq_dvd_iff)
  with m show ?thesis by simp
qed

section \<open>fermat\_test\<close>

lemma fermat_loop_correct:
  assumes "2 \<le> N"
  shows "fermat_loop N as = Some (Inr (\<forall>a\<in>set as. a ^ nat (N - 1) mod N = 1))"
proof (induction as)
  case Nil
  show ?case by simp
next
  case (Cons a as)
  have "modexp a (N - 1) N = Some (Inr (a ^ nat (N - 1) mod N))"
    using assms by (intro modexp_correct) auto
  with Cons show ?case by simp
qed

lemma fermat_loop_calls_result:
  "map_option (map_sum id fst) (fermat_loop_calls N ws) = fermat_loop N ws"
  by (induction ws) (auto split: option.splits sum.splits)

lemma fermat_loop_calls_all_pass:
  assumes "\<forall>b\<in>set ws. modexp b (N - 1) N = Some (Inr 1)"
  shows "fermat_loop_calls N ws = Some (Inr (True, ws))"
  using assms by (induction ws) auto

lemma fermat_loop_calls_short_circuit:
  assumes "modexp a (N - 1) N = Some (Inr z)" "z \<noteq> 1"
    and "\<forall>b\<in>set pre. modexp b (N - 1) N = Some (Inr 1)"
  shows "fermat_loop_calls N (pre @ a # post) = Some (Inr (False, pre @ [a]))"
  using assms(3) by (induction pre) (use assms(1,2) in auto)

lemma fermat_test_Explicit:
  "fermat_test N (Explicit as) rs =
     (case fermat_loop N as of None \<Rightarrow> None | Some (Inl err) \<Rightarrow> Some (Inl err)
      | Some (Inr b) \<Rightarrow> Some (Inr (b, rs)))"
  by (simp add: fermat_test_def)

lemma fermat_test_Explicit_rng:
  assumes "fermat_test N (Explicit as) rs = Some (Inr (b, rs'))"
  shows "rs' = rs \<and> fermat_test N (Explicit as) rs0 = Some (Inr (b, rs0))"
  using assms by (auto simp: fermat_test_Explicit split: option.splits sum.splits)

lemma randint_range:
  assumes "randint lo hi rs = Inr (a, rs')"
  shows "lo \<le> a \<and> a \<le> hi \<and> rs' = stl rs"
proof -
  from assms have le: "lo \<le> hi" and a: "a = lo + int (shd rs) mod (hi - lo + 1)"
    and "rs' = stl rs"
    by (auto simp: randint_def split: if_splits)
  from le have pos: "0 < hi - lo + 1" by simp
  have "0 \<le> int (shd rs) mod (hi - lo + 1)" "int (shd rs) mod (hi - lo + 1) < hi - lo + 1"
    using pos_mod_sign [OF pos] pos_mod_bound [OF pos] by blast+
  with a \<open>rs' = stl rs\<close> show ?thesis by simp
qed

lemma randint_ok:
  assumes "lo \<le> hi"
  shows "\<exists>a. randint lo hi rs = Inr (a, stl rs) \<and> lo \<le> a \<and> a \<le> hi"
proof -
  have eq: "randint lo hi rs = Inr (lo + int (shd rs) mod (hi - lo + 1), stl rs)"
    using assms by (simp add: randint_def)
  from randint_range [OF eq] eq show ?thesis by blast
qed

lemma randints_ok:
  assumes "lo \<le> hi"
  shows "\<exists>as. randints lo hi k rs = Inr (as, sdrop k rs) \<and> length as = k
           \<and> (\<forall>a\<in>set as. lo \<le> a \<and> a \<le> hi)"
proof (induction k arbitrary: rs)
  case 0
  show ?case by simp
next
  case (Suc k)
  from randint_ok [OF assms, of rs] obtain a where
    a: "randint lo hi rs = Inr (a, stl rs)" "lo \<le> a" "a \<le> hi" by blast
  from Suc [of "stl rs"] obtain as where
    as: "randints lo hi k (stl rs) = Inr (as, sdrop k (stl rs))" "length as = k"
      "\<forall>a\<in>set as. lo \<le> a \<and> a \<le> hi" by blast
  from a as show ?case by simp
qed

text \<open>
  Claim C7, amended. For every \<open>N \<ge> 2\<close> and every explicit list of witnesses,
  \<open>fermat_test\<close> returns \<open>False\<close> if and only if some witness \<open>a\<close> has
  \<open>a^(N-1) mod N \<noteq> 1\<close>, and \<open>True\<close> when every witness has \<open>a^(N-1) mod N = 1\<close>; the
  random source is not read. It returns \<open>False\<close> at the first failing witness without
  evaluating the later ones: the loop calls \<open>modexp\<close> on the witnesses before it and on
  the failing witness itself, and on no witness after it. When every witness passes, the
  loop calls \<open>modexp\<close> on each of them.

  Below 2 the statement fails: for \<open>N \<le> 0\<close> the exponent \<open>N - 1\<close> is negative and the call
  never returns, and for \<open>N = 1\<close> the base case of \<open>modexp\<close> makes every witness pass.
\<close>

theorem fermat_test_explicit:
  assumes "2 \<le> N"
  shows "fermat_test N (Explicit ws) rs
      = Some (Inr ((\<forall>a\<in>set ws. a ^ nat (N - 1) mod N = 1), rs))
    \<and> map_option (map_sum id fst) (fermat_loop_calls N ws) = fermat_loop N ws
    \<and> (\<forall>pre a post.
          ws = pre @ a # post \<and> (\<forall>b\<in>set pre. b ^ nat (N - 1) mod N = 1)
            \<and> a ^ nat (N - 1) mod N \<noteq> 1
          \<longrightarrow> fermat_test N (Explicit ws) rs = Some (Inr (False, rs))
            \<and> fermat_loop_calls N ws = Some (Inr (False, pre @ [a])))
    \<and> ((\<forall>a\<in>set ws. a ^ nat (N - 1) mod N = 1)
          \<longrightarrow> fermat_loop_calls N ws = Some (Inr (True, ws)))"
proof -
  have me: "modexp b (N - 1) N = Some (Inr (b ^ nat (N - 1) mod N))" for b
    using assms by (intro modexp_correct) auto
  have res: "fermat_test N (Explicit xs) rs
      = Some (Inr ((\<forall>a\<in>set xs. a ^ nat (N - 1) mod N = 1), rs))" for xs
    by (simp add: fermat_test_Explicit fermat_loop_correct [OF assms])
  show ?thesis
  proof (intro conjI allI impI)
    show "fermat_test N (Explicit ws) rs
        = Some (Inr ((\<forall>a\<in>set ws. a ^ nat (N - 1) mod N = 1), rs))"
      by (rule res)
  next
    show "map_option (map_sum id fst) (fermat_loop_calls N ws) = fermat_loop N ws"
      by (rule fermat_loop_calls_result)
  next
    fix pre a post
    assume h: "ws = pre @ a # post \<and> (\<forall>b\<in>set pre. b ^ nat (N - 1) mod N = 1)
      \<and> a ^ nat (N - 1) mod N \<noteq> 1"
    then show "fermat_test N (Explicit ws) rs = Some (Inr (False, rs))"
      by (auto simp: res)
    from h have "\<forall>b\<in>set pre. modexp b (N - 1) N = Some (Inr 1)"
      by (simp add: me)
    from fermat_loop_calls_short_circuit [OF me _ this, of a post] h
    show "fermat_loop_calls N ws = Some (Inr (False, pre @ [a]))" by simp
  next
    assume "\<forall>a\<in>set ws. a ^ nat (N - 1) mod N = 1"
    then have "\<forall>b\<in>set ws. modexp b (N - 1) N = Some (Inr 1)" by (simp add: me)
    then show "fermat_loop_calls N ws = Some (Inr (True, ws))"
      by (rule fermat_loop_calls_all_pass)
  qed
qed

theorem fermat_test_explicit_witness:
  "(2::int) \<le> 62
    \<and> (1::int) ^ nat (62 - 1) mod 62 = 1 \<and> (3::int) ^ nat (62 - 1) mod 62 \<noteq> 1
    \<and> fermat_test 62 (Explicit [1, 3, 5]) (sconst 0) = Some (Inr (False, sconst 0))
    \<and> fermat_loop_calls 62 [1, 3, 5] = Some (Inr (False, [1, 3]))
    \<and> fermat_test 23 (Explicit [2, 3]) (sconst 0) = Some (Inr (True, sconst 0))
    \<and> fermat_loop_calls 23 [2, 3] = Some (Inr (True, [2, 3]))"
proof -
  have h: "(2::int) \<le> 62" and h23: "(2::int) \<le> 23" by simp_all
  have 1: "(1::int) ^ nat (62 - 1) mod 62 = 1" by simp
  have 3: "(3::int) ^ nat (62 - 1) mod 62 \<noteq> 1" using fermat_62 [of 3] by simp
  have c: "fermat_loop_calls 62 [1, 3, 5] = Some (Inr (False, [1, 3]))"
    by (simp add: modexp.simps)
  have d: "fermat_loop_calls 23 [2, 3] = Some (Inr (True, [2, 3]))"
    by (simp add: modexp.simps)
  from fermat_test_explicit [OF h, of "[1, 3, 5]" "sconst 0"]
    fermat_test_explicit [OF h23, of "[2, 3]" "sconst 0"] 1 3 c d h
  show ?thesis by (simp add: fermat_loop_calls_result)
qed

theorem fermat_test_modulus_below_two_counterexample:
  "fermat_test 0 (Explicit [2]) (sconst 0) = None
    \<and> fermat_test 1 (Explicit [2]) (sconst 0) = Some (Inr (True, sconst 0))
    \<and> (2::int) ^ nat (1 - 1) mod 1 \<noteq> 1"
  by (simp add: fermat_test_Explicit modexp_negative)

text \<open>
  Claim C10. With an explicit empty collection of witnesses, \<open>fermat_test\<close> returns \<open>True\<close>
  for every \<open>N\<close> (so for every \<open>N \<ge> 2\<close>, prime or composite): the loop body never runs, no
  error is raised, and the random source is not read.
\<close>

theorem fermat_test_empty:
  "fermat_test N (Explicit []) rs = Some (Inr (True, rs))"
  by (simp add: fermat_test_def)

text \<open>
  Claim C9, amended. With the default ten random bases, \<open>fermat_test 61\<close> returns \<open>True\<close>
  for every state of the random source. \<open>fermat_test 62\<close> returns \<open>False\<close> exactly when one
  of the ten bases drawn from \<open>[1, 61]\<close> differs from 1, and \<open>True\<close> when all ten are 1:
  the base 1 passes the test for every \<open>N\<close>.
\<close>

theorem fermat_test_default_61_62:
  "fermat_test 61 (Count 10) rs = Some (Inr (True, sdrop 10 rs))
    \<and> (\<exists>as. randints 1 (62 - 1) (nat 10) rs = Inr (as, sdrop 10 rs)
          \<and> fermat_test 62 (Count 10) rs = Some (Inr ((\<forall>a\<in>set as. a = 1), sdrop 10 rs)))"
proof
  from randints_ok [of 1 60 10 rs] obtain as where
    as: "randints 1 60 10 rs = Inr (as, sdrop 10 rs)" "\<forall>a\<in>set as. 1 \<le> a \<and> a \<le> 60"
    by auto
  from as(2) have "\<forall>a\<in>set as. a ^ nat (61 - 1) mod 61 = 1"
    by (auto simp: fermat_61)
  then have "fermat_loop 61 as = Some (Inr True)"
    by (simp add: fermat_loop_correct)
  with as(1) show "fermat_test 61 (Count 10) rs = Some (Inr (True, sdrop 10 rs))"
    by (simp add: fermat_test_def)
next
  from randints_ok [of 1 61 10 rs] obtain as where
    as: "randints 1 61 10 rs = Inr (as, sdrop 10 rs)" "\<forall>a\<in>set as. 1 \<le> a \<and> a \<le> 61"
    by auto
  have "a ^ nat (62 - 1) mod 62 = 1 \<longleftrightarrow> a = 1" if "a \<in> set as" for a
  proof (cases "a = 1")
    case True
    then show ?thesis by simp
  next
    case False
    with as(2) that have "2 \<le> a" "a \<le> 61" by auto
    from fermat_62 [OF this] False show ?thesis by simp
  qed
  then have "(\<forall>a\<in>set as. a ^ nat (62 - 1) mod 62 = 1) \<longleftrightarrow> (\<forall>a\<in>set as. a = 1)"
    by blast
  then have "fermat_loop 62 as = Some (Inr (\<forall>a\<in>set as. a = 1))"
    by (simp add: fermat_loop_correct)
  with as(1) have "fermat_test 62 (Count 10) rs = Some (Inr ((\<forall>a\<in>set as. a = 1), sdrop 10 rs))"
    by (simp add: fermat_test_def)
  with as(1) show "\<exists>as. randints 1 (62 - 1) (nat 10) rs = Inr (as, sdrop 10 rs)
          \<and> fermat_test 62 (Count 10) rs = Some (Inr ((\<forall>a\<in>set as. a = 1), sdrop 10 rs))"
    by auto
qed

theorem fermat_test_default_61_62_witness:
  "fermat_test 61 (Count 10) (sconst 1) = Some (Inr (True, sconst 1))
    \<and> randints 1 61 10 (sconst 1) = Inr ([2, 2, 2, 2, 2, 2, 2, 2, 2, 2], sconst 1)
    \<and> fermat_test 62 (Count 10) (sconst 1) = Some (Inr (False, sconst 1))"
proof -
  have draws: "randints 1 61 10 (sconst 1) = Inr ([2, 2, 2, 2, 2, 2, 2, 2, 2, 2], sconst 1)"
    by (simp add: eval_nat_numeral randint_def)
  have "sdrop 10 (sconst (1::nat)) = sconst 1"
    by (simp add: sdrop_siterate)
  with fermat_test_default_61_62 [of "sconst 1"] draws show ?thesis by auto
qed

theorem fermat_test_default_62_counterexample:
  "fermat_test 62 (Count 10) (sconst 0) = Some (Inr (True, sconst 0))"
  by (simp add: fermat_test_def eval_nat_numeral randint_def modexp.simps)

section \<open>randprime\<close>

lemma randprime_body_result:
  assumes hyp: "\<And>lower upper rs y v rs'. f lower upper rs = Some y \<Longrightarrow> y = Inr (v, rs') \<Longrightarrow>
      lower \<le> v \<and> v \<le> upper \<and> fermat_test v (Explicit trial_alphas) rs' = Some (Inr (True, rs'))"
    and body: "(case randint lower upper rs of
        Inl err \<Rightarrow> Some (Inl err)
      | Inr (n, rs') \<Rightarrow>
          Option.bind (fermat_test n (Explicit trial_alphas) rs') (\<lambda>r.
            case r of
              Inl err \<Rightarrow> Some (Inl err)
            | Inr (b, rs'') \<Rightarrow> if b then Some (Inr (n, rs'')) else f lower upper rs'')) = Some (Inr (v, rs1))"
  shows "lower \<le> v \<and> v \<le> upper \<and> fermat_test v (Explicit trial_alphas) rs1 = Some (Inr (True, rs1))"
proof -
  from body obtain n rs' where ri: "randint lower upper rs = Inr (n, rs')"
    by (cases "randint lower upper rs") auto
  from randint_range [OF ri] have n: "lower \<le> n" "n \<le> upper" by simp_all
  from body ri obtain r where ft: "fermat_test n (Explicit trial_alphas) rs' = Some r"
    and r: "(case r of Inl err \<Rightarrow> Some (Inl err)
            | Inr (b, rs'') \<Rightarrow> if b then Some (Inr (n, rs'')) else f lower upper rs'') = Some (Inr (v, rs1))"
    by (auto simp: bind_eq_Some_conv)
  from r obtain b rs'' where rb: "r = Inr (b, rs'')"
    by (cases r) auto
  show ?thesis
  proof (cases b)
    case True
    with r rb have "v = n" "rs1 = rs''" by simp_all
    with ft rb True fermat_test_Explicit_rng [of n trial_alphas rs' True rs'' rs1] n
    show ?thesis by simp
  next
    case False
    with r rb have "f lower upper rs'' = Some (Inr (v, rs1))" by simp
    from hyp [OF this refl] show ?thesis .
  qed
qed

lemma randprime_returns:
  assumes "randprime lower upper rs = Some (Inr (v, rs'))"
  shows "lower \<le> v \<and> v \<le> upper
    \<and> fermat_test v (Explicit trial_alphas) rs' = Some (Inr (True, rs'))"
proof -
  define P where "P = (\<lambda>(lower::int) (upper::int) (rs::rng) (y::error + int \<times> rng).
      \<forall>v rs'. y = Inr (v, rs') \<longrightarrow>
      lower \<le> v \<and> v \<le> upper
      \<and> fermat_test v (Explicit trial_alphas) rs' = Some (Inr (True, rs')))"
  have "P lower upper rs (Inr (v, rs'))"
  proof (rule randprime.raw_induct [where P = P, OF _ assms], goal_cases)
    case (1 f l u r y)
    have hyp: "l \<le> w \<and> w \<le> u
        \<and> fermat_test w (Explicit trial_alphas) rs2 = Some (Inr (True, rs2))"
      if "f l u r = Some z" "z = Inr (w, rs2)" for l u r z w rs2
      using 1(1) [OF that(1)] that(2) by (simp add: P_def)
    show ?case
      unfolding P_def
    proof (intro allI impI)
      fix w rs1 assume y: "y = Inr (w, rs1)"
      show "l \<le> w \<and> w \<le> u
          \<and> fermat_test w (Explicit trial_alphas) rs1 = Some (Inr (True, rs1))"
        by (rule randprime_body_result [of f, OF hyp 1(2) [unfolded y]])
    qed
  qed
  then show ?thesis by (simp add: P_def)
qed

text \<open>
  Claim C8. Whenever \<open>randprime lower upper\<close> returns a value \<open>v\<close>, whatever the random
  source holds, \<open>lower \<le> v \<le> upper\<close> and \<open>fermat_test\<close> on \<open>v\<close> with the witnesses
  \<open>[2, 3, 5, 7, 11, 13, 17, 19]\<close> returns \<open>True\<close>.
\<close>

theorem randprime_result:
  assumes "randprime lower upper rs = Some (Inr (v, rs'))"
  shows "lower \<le> v \<and> v \<le> upper
    \<and> fermat_test v (Explicit [2, 3, 5, 7, 11, 13, 17, 19]) rs' = Some (Inr (True, rs'))"
  using randprime_returns [OF assms] by (simp add: trial_alphas_def)

theorem randprime_result_witness:
  "randprime 16 31 (0 ## 7 ## sconst 0) = Some (Inr (23, sconst 0))
    \<and> (16::int) \<le> 23 \<and> (23::int) \<le> 31
    \<and> fermat_test 23 (Explicit [2, 3, 5, 7, 11, 13, 17, 19]) (sconst 0) = Some (Inr (True, sconst 0))"
proof -
  have run: "randprime 16 31 (0 ## 7 ## sconst 0) = Some (Inr (23, sconst 0))"
    by (simp add: randprime.simps randint_def trial_alphas_def fermat_test_Explicit modexp.simps)
  from randprime_result [OF run] run show ?thesis by simp
qed

section \<open>keygen\<close>

lemma modinv_zero_modulus: "\<exists>err. modinv a 0 = Inl err"
  by (simp add: modinv_def)

lemma find_exponent_body_result:
  assumes hyp: "\<And>e0 phi e d. f e0 phi = Some (e, d) \<Longrightarrow>
      e0 \<le> e \<and> modinv e phi = Inr d
      \<and> (\<forall>e'. e0 \<le> e' \<and> e' < e \<longrightarrow> (\<exists>err. modinv e' phi = Inl err))"
    and body: "(case modinv e0 phi of
        Inr d \<Rightarrow> Some (e0, d)
      | Inl err \<Rightarrow> f (e0 + 1) phi) = Some (e, d)"
  shows "e0 \<le> e \<and> modinv e phi = Inr d
      \<and> (\<forall>e'. e0 \<le> e' \<and> e' < e \<longrightarrow> (\<exists>err. modinv e' phi = Inl err))"
proof (cases "modinv e0 phi")
  case (Inr d')
  with body show ?thesis by auto
next
  case (Inl err)
  with body have "f (e0 + 1) phi = Some (e, d)" by simp
  from hyp [OF this] have le: "e0 + 1 \<le> e" and mi: "modinv e phi = Inr d"
    and below: "\<And>e'. e0 + 1 \<le> e' \<Longrightarrow> e' < e \<Longrightarrow> \<exists>err. modinv e' phi = Inl err"
    by blast+
  have "\<exists>err. modinv e' phi = Inl err" if "e0 \<le> e'" "e' < e" for e'
  proof (cases "e' = e0")
    case True
    with Inl show ?thesis by simp
  next
    case False
    with that have "e0 + 1 \<le> e'" by simp
    from below [OF this that(2)] show ?thesis .
  qed
  with le mi show ?thesis by simp
qed

lemma find_exponent_returns:
  assumes "find_exponent e0 phi = Some (e, d)"
  shows "e0 \<le> e \<and> modinv e phi = Inr d
      \<and> (\<forall>e'. e0 \<le> e' \<and> e' < e \<longrightarrow> (\<exists>err. modinv e' phi = Inl err))"
proof -
  define P where "P = (\<lambda>(e0::int) (phi::int) (y::int \<times> int).
      e0 \<le> fst y \<and> modinv (fst y) phi = Inr (snd y)
      \<and> (\<forall>e'. e0 \<le> e' \<and> e' < fst y \<longrightarrow> (\<exists>err. modinv e' phi = Inl err)))"
  have "P e0 phi (e, d)"
  proof (rule find_exponent.raw_induct [where P = P, OF _ assms], goal_cases)
    case (1 f e0 phi y)
    obtain e d where y: "y = (e, d)" by (cases y)
    have hyp: "e0 \<le> e \<and> modinv e phi = Inr d
        \<and> (\<forall>e'. e0 \<le> e' \<and> e' < e \<longrightarrow> (\<exists>err. modinv e' phi = Inl err))"
      if "f e0 phi = Some (e, d)" for e0 phi e d
      using 1(1) [OF that] by (simp add: P_def)
    from find_exponent_body_result [of f, OF hyp 1(2) [unfolded y]]
    show ?case by (simp add: P_def y)
  qed
  then show ?thesis by (simp add: P_def)
qed

lemma keygen_bit_length:
  fixes p q :: int
  assumes "1 \<le> nbits"
    and p: "2 ^ nat (nbits - 1) \<le> p" "p \<le> 2 ^ nat nbits - 1"
    and q: "2 ^ nat (nbits - 1) \<le> q" "q \<le> 2 ^ nat nbits - 1"
  shows "2 * (nbits - 1) + 1 \<le> bitlen (p * q) \<and> bitlen (p * q) \<le> 2 * nbits"
proof -
  have pos: "(0::int) < 2 ^ nat (nbits - 1)" by simp
  with p q have p0: "0 < p" and q0: "0 < q" by linarith+
  have "(2::int) ^ (2 * nat (nbits - 1)) = 2 ^ nat (nbits - 1) * 2 ^ nat (nbits - 1)"
    by (simp add: power_add mult_2)
  also have "\<dots> \<le> p * q"
    using p(1) q(1) pos p0 by (intro mult_mono) auto
  finally have lower: "(2::int) ^ (2 * nat (nbits - 1)) \<le> p * q" .
  have "p * q < 2 ^ nat nbits * 2 ^ nat nbits"
    using p(2) q(2) p0 q0 by (intro mult_strict_mono) auto
  also have "\<dots> = (2::int) ^ (2 * nat nbits)" by (simp add: power_add mult_2)
  finally have upper: "p * q < (2::int) ^ (2 * nat nbits)" .
  have n1: "nat (2 * (nbits - 1) + 1) - 1 = 2 * nat (nbits - 1)"
    using assms(1) by (simp add: nat_add_distrib nat_mult_distrib)
  have n2: "nat (2 * nbits) = 2 * nat nbits"
    using assms(1) by (simp add: nat_mult_distrib)
  have "2 * (nbits - 1) + 1 \<le> bitlen (p * q)"
    unfolding bitlen_ge_iff_power n1 using lower by blast
  moreover have "bitlen (p * q) \<le> 2 * nbits"
    unfolding bitlen_le_iff_power n2 using upper assms(1) by simp
  ultimately show ?thesis by blast
qed

text \<open>
  Claim C2. If \<open>keygen nbits\<close> returns \<open>((N, e), (N, d))\<close>, then with \<open>p\<close> and \<open>q\<close> the values
  its two calls of \<open>randprime\<close> returned: \<open>N = p * q\<close>; \<open>e * d\<close> is congruent to 1 modulo
  \<open>(p - 1) * (q - 1)\<close>; the bit length of \<open>N\<close> lies between \<open>2 * (nbits - 1) + 1\<close> and
  \<open>2 * nbits\<close>; and \<open>e\<close> is the least integer from 3 on that is coprime to
  \<open>(p - 1) * (q - 1)\<close>: \<open>modinv\<close> raised for every candidate from 3 up to \<open>e - 1\<close> and
  returned \<open>d\<close> for \<open>e\<close>.
\<close>

theorem keygen_correct:
  assumes "keygen nbits rs = Some (Inr (((N, e), (N', d)), rs'))"
  shows "\<exists>p q rs1.
      randprime (2 ^ nat (nbits - 1)) (2 ^ nat nbits - 1) rs = Some (Inr (p, rs1))
    \<and> randprime (2 ^ nat (nbits - 1)) (2 ^ nat nbits - 1) rs1 = Some (Inr (q, rs'))
    \<and> N = p * q \<and> N' = N
    \<and> (e * d) mod ((p - 1) * (q - 1)) = 1 mod ((p - 1) * (q - 1))
    \<and> 2 * (nbits - 1) + 1 \<le> bitlen N \<and> bitlen N \<le> 2 * nbits
    \<and> 3 \<le> e \<and> gcd e ((p - 1) * (q - 1)) = 1
    \<and> (\<forall>e'. 3 \<le> e' \<and> e' < e \<longrightarrow> gcd e' ((p - 1) * (q - 1)) \<noteq> 1)
    \<and> modinv e ((p - 1) * (q - 1)) = Inr d
    \<and> (\<forall>e'. 3 \<le> e' \<and> e' < e \<longrightarrow> (\<exists>err. modinv e' ((p - 1) * (q - 1)) = Inl err))"
proof -
  let ?lo = "2 ^ nat (nbits - 1) :: int" and ?hi = "2 ^ nat nbits - 1 :: int"
  from assms have nb: "1 \<le> nbits"
    by (auto simp: keygen_def split: if_splits)
  with assms obtain p rs1 where rp: "randprime ?lo ?hi rs = Some (Inr (p, rs1))"
    by (auto simp: keygen_def Let_def split: option.splits sum.splits)
  with assms nb obtain q rs2 where rq: "randprime ?lo ?hi rs1 = Some (Inr (q, rs2))"
    by (auto simp: keygen_def Let_def split: option.splits sum.splits)
  let ?phi = "(p - 1) * (q - 1)"
  from assms nb rp rq have fe: "find_exponent 3 ?phi = Some (e, d)"
    and res: "N = p * q" "N' = N" "rs' = rs2"
    by (auto simp: keygen_def Let_def split: option.splits)
  from find_exponent_returns [OF fe] have e3: "3 \<le> e" and mi: "modinv e ?phi = Inr d"
    and below: "\<forall>e'. 3 \<le> e' \<and> e' < e \<longrightarrow> (\<exists>err. modinv e' ?phi = Inl err)"
    by blast+
  from randprime_returns [OF rp] have p: "?lo \<le> p" "p \<le> ?hi" by simp_all
  from randprime_returns [OF rq] have q: "?lo \<le> q" "q \<le> ?hi" by simp_all
  have "(1::int) \<le> ?lo" by simp
  with p q have "1 \<le> p" "1 \<le> q" by linarith+
  then have "0 \<le> ?phi" by simp
  moreover have "?phi \<noteq> 0" using mi modinv_zero_modulus [of e] by auto
  ultimately have phi: "1 \<le> ?phi" by linarith
  from modinv_result [OF phi mi] have g: "gcd e ?phi = 1"
    and inv: "(e * d) mod ?phi = 1 mod ?phi" by simp_all
  have small: "gcd e' ?phi \<noteq> 1" if "3 \<le> e'" "e' < e" for e'
  proof
    assume "gcd e' ?phi = 1"
    from modinv_inverse [OF phi this] obtain x where "modinv e' ?phi = Inr x" by blast
    with below that show False by auto
  qed
  from keygen_bit_length [OF nb p q] res
  have bits: "2 * (nbits - 1) + 1 \<le> bitlen N" "bitlen N \<le> 2 * nbits" by simp_all
  from rq res(3) have rq': "randprime ?lo ?hi rs1 = Some (Inr (q, rs'))" by simp
  show ?thesis
  proof (rule exI [of _ p], rule exI [of _ q], rule exI [of _ rs1], intro conjI)
    show "randprime ?lo ?hi rs = Some (Inr (p, rs1))" by (rule rp)
    show "randprime ?lo ?hi rs1 = Some (Inr (q, rs'))" by (rule rq')
    show "N = p * q" "N' = N" by (rule res)+
    show "(e * d) mod ?phi = 1 mod ?phi" by (rule inv)
    show "2 * (nbits - 1) + 1 \<le> bitlen N" "bitlen N \<le> 2 * nbits" by (rule bits)+
    show "3 \<le> e" by (rule e3)
    show "gcd e ?phi = 1" by (rule g)
    show "\<forall>e'. 3 \<le> e' \<and> e' < e \<longrightarrow> gcd e' ?phi \<noteq> 1"
    proof (intro allI impI)
      fix e' assume "3 \<le> e' \<and> e' < e"
      then show "gcd e' ?phi \<noteq> 1" using small [of e'] by simp
    qed
    show "modinv e ?phi = Inr d" by (rule mi)
    show "\<forall>e'. 3 \<le> e' \<and> e' < e \<longrightarrow> (\<exists>err. modinv e' ?phi = Inl err)" by (rule below)
  qed
qed

theorem keygen_correct_witness:
  "keygen 5 (15 ## 7 ## sconst 0) = Some (Inr (((713, 7), (713, 283)), sconst 0))
    \<and> randprime 16 31 (15 ## 7 ## sconst 0) = Some (Inr (31, 7 ## sconst 0))
    \<and> randprime 16 31 (7 ## sconst 0) = Some (Inr (23, sconst 0))
    \<and> (713::int) = 31 * 23 \<and> (7 * 283) mod ((31 - 1) * (23 - 1)) = (1::int)
    \<and> 9 \<le> bitlen 713 \<and> bitlen 713 \<le> 10
    \<and> gcd (7::int) ((31 - 1) * (23 - 1)) = 1"
proof -
  have rp: "randprime 16 31 (15 ## 7 ## sconst 0) = Some (Inr (31, 7 ## sconst 0))"
    by (simp add: randprime.simps randint_def trial_alphas_def fermat_test_Explicit modexp.simps)
  have rq: "randprime 16 31 (7 ## sconst 0) = Some (Inr (23, sconst 0))"
    by (simp add: randprime.simps randint_def trial_alphas_def fermat_test_Explicit modexp.simps)
  have fe: "find_exponent 3 660 = Some (7, 283)"
    by (simp add: find_exponent.simps modinv_def extended_euclid.simps)
  have run: "keygen 5 (15 ## 7 ## sconst 0) = Some (Inr (((713, 7), (713, 283)), sconst 0))"
    by (simp add: keygen_def rp rq fe)
  from keygen_correct [OF run] rp rq run show ?thesis by auto
qed

section \<open>encode and decode\<close>

lemma decode_encode:
  assumes pq: "is_prime p" "is_prime q" "p \<noteq> q"
    and ed: "0 \<le> e" "0 \<le> d" "(e * d) mod ((p - 1) * (q - 1)) = 1"
    and m: "0 \<le> m" "m < p * q"
  shows "encode (p * q, e) m = Some (Inr (m ^ nat e mod (p * q)))
    \<and> decode (p * q, d) (m ^ nat e mod (p * q)) = Some (Inr m)"
proof -
  from pq have p: "2 \<le> p" and q: "2 \<le> q" by (auto dest: is_prime_ge_2)
  then have "2 * 2 \<le> p * q" by (intro mult_mono) auto
  then have N: "2 \<le> p * q" by simp
  have enc: "encode (p * q, e) m = Some (Inr (m ^ nat e mod (p * q)))"
    using modexp_correct [OF ed(1) N] by (simp add: encode_def)
  have "decode (p * q, d) (m ^ nat e mod (p * q))
      = Some (Inr ((m ^ nat e mod (p * q)) ^ nat d mod (p * q)))"
    using modexp_correct [OF ed(2) N] by (simp add: decode_def)
  also have "(m ^ nat e mod (p * q)) ^ nat d mod (p * q) = m ^ (nat e * nat d) mod (p * q)"
    by (simp add: power_mod power_mult)
  also have "\<dots> = m" by (rule rsa_power [OF pq ed m])
  finally show ?thesis using enc by simp
qed

lemma doctest_encode:
  "encode (12087136410462725761, 5) 1337 = Some (Inr 4272253717090457)"
  by (simp add: encode_def modexp.simps)

lemma doctest_decode:
  "decode (12087136410462725761, 4834854561401929901) 4272253717090457 = Some (Inr 1337)"
  by code_simp

text \<open>
  Claim C1, amended. Take a key pair \<open>((N, e), (N, d))\<close> with \<open>N = p * q\<close> for two distinct
  primes \<open>p\<close> and \<open>q\<close>, non-negative exponents, and \<open>e * d mod ((p-1) * (q-1)) = 1\<close>. For
  every message \<open>0 \<le> m < N\<close>, \<open>encode\<close> returns a value that \<open>decode\<close> maps back to \<open>m\<close>.
  The two examples of the docstrings hold as written.

  Without distinctness the round trip fails. \<open>keygen\<close> does not compare its two primes: when
  both calls of \<open>randprime\<close> return 23, the key pair is \<open>((529, 3), (529, 323))\<close>, it meets
  every other condition, and the message 23 is encoded to 0 and decoded to 0.
\<close>

theorem rsa_round_trip:
  assumes "is_prime p" "is_prime q" "p \<noteq> q"
    and "0 \<le> e" "0 \<le> d" "(e * d) mod ((p - 1) * (q - 1)) = 1"
    and "0 \<le> m" "m < p * q"
  shows "(\<exists>c. encode (p * q, e) m = Some (Inr c) \<and> decode (p * q, d) c = Some (Inr m))
    \<and> encode (12087136410462725761, 5) 1337 = Some (Inr 4272253717090457)
    \<and> decode (12087136410462725761, 4834854561401929901) 4272253717090457 = Some (Inr 1337)"
  using decode_encode [OF assms] doctest_encode doctest_decode by blast

theorem rsa_round_trip_witness:
  "is_prime 61 \<and> is_prime 53 \<and> (61::int) \<noteq> 53 \<and> (0::int) \<le> 17 \<and> (0::int) \<le> 2753
    \<and> (17 * 2753) mod ((61 - 1) * (53 - 1)) = (1::int) \<and> (0::int) \<le> 65 \<and> (65::int) < 61 * 53
    \<and> encode (61 * 53, 17) 65 = Some (Inr 2790)
    \<and> decode (61 * 53, 2753) 2790 = Some (Inr 65)"
proof -
  have h: "is_prime 61" "is_prime 53" "(61::int) \<noteq> 53" "(0::int) \<le> 17" "(0::int) \<le> 2753"
    "(17 * 2753) mod ((61 - 1) * (53 - 1)) = (1::int)" "(0::int) \<le> 65" "(65::int) < 61 * 53"
    by (simp_all add: is_prime_61 is_prime_53)
  have enc: "encode (61 * 53, 17) 65 = Some (Inr 2790)"
    by (simp add: encode_def modexp.simps)
  from rsa_round_trip [OF h] enc h show ?thesis by auto
qed

theorem rsa_round_trip_duplicate_primes_counterexample:
  "is_prime 23 \<and> (0::int) \<le> 3 \<and> (0::int) \<le> 323
    \<and> (3 * 323) mod ((23 - 1) * (23 - 1)) = (1::int)
    \<and> (0::int) \<le> 23 \<and> (23::int) < 23 * 23
    \<and> keygen 5 (sconst 7) = Some (Inr (((23 * 23, 3), (23 * 23, 323)), sconst 7))
    \<and> encode (23 * 23, 3) 23 = Some (Inr 0)
    \<and> decode (23 * 23, 323) 0 = Some (Inr 0)"
  by (simp add: is_prime_23 keygen_def randprime.simps randint_def trial_alphas_def
      fermat_test_Explicit find_exponent.simps modinv_def extended_euclid.simps
      encode_def decode_def modexp.simps)

end
